theory Spec2Isabelle
  imports Complex_Main "HOL-Library.Multiset" "HOL-Library.Product_Lexorder" "HOL-Library.Sublist"
begin

section \<open>Extractive summarisation: data model\<close>

text \<open>
  The notebook's \<^verbatim>\<open>extractive_summary(article, num_sentences=3)\<close> starts with
  \<^verbatim>\<open>doc = nlp(article)\<close> and \<^verbatim>\<open>sentences = list(doc.sents)\<close>. The segmenter is
  spaCy, an external library; what the function computes with is its result, so the
  model takes the segmented document as its input: the list of sentence spans, in the
  order \<^verbatim>\<open>doc.sents\<close> yields them. A token carries the three attributes the function
  reads (\<^verbatim>\<open>token.text\<close>, \<^verbatim>\<open>token.is_stop\<close>, \<^verbatim>\<open>token.is_punct\<close>).
\<close>

record token =
  tok_text :: string
  is_stop :: bool
  is_punct :: bool

text \<open>
  A sentence is a spaCy \<^verbatim>\<open>Span\<close>. The function iterates over its tokens
  (\<open>span_tokens\<close>), converts it with \<^verbatim>\<open>str\<close> (\<open>span_text\<close>), and compares
  spans: with \<^verbatim>\<open>==\<close> inside \<^verbatim>\<open>sentences.index\<close>, and with \<^verbatim>\<open>==\<close> and
  \<^verbatim>\<open><\<close> when \<^verbatim>\<open>sorted\<close> compares two \<^verbatim>\<open>(score, sent)\<close> tuples of equal score.
  spaCy compares two spans by their character offset in the document first
  (\<open>start_char\<close>) and by further attributes only when the offsets are equal. The
  sentences that \<^verbatim>\<open>doc.sents\<close> yields for one document are non-empty, do not overlap
  and come in document order, so their offsets increase strictly: this is \<open>doc_sents\<close>
  below, and on such sentences the offset alone decides every comparison.
\<close>

record span =
  start_char :: nat
  span_text :: string
  span_tokens :: "token list"

definition doc_sents :: "span list \<Rightarrow> bool" where
  "doc_sents sentences = sorted_wrt (<) (map start_char sentences)"

text \<open>
  \<^verbatim>\<open>for token in doc\<close>: the sentences of a document partition its tokens, so the
  tokens of the document are those of its sentences, in order.
\<close>

definition doc_tokens :: "span list \<Rightarrow> token list" where
  "doc_tokens sentences = concat (map span_tokens sentences)"

datatype error = TypeError | ValueError | ZeroDivisionError

text \<open>
  \<^verbatim>\<open>num_sentences\<close> is an untyped Python argument. The only place that reads it is the
  slice \<^verbatim>\<open>[:num_sentences]\<close>, which accepts an integer (negative ones count from the
  end), accepts \<^verbatim>\<open>None\<close> (no bound), and raises \<^verbatim>\<open>TypeError\<close> for any other value
  (a float, a string): \<open>PyOther\<close>.
\<close>

datatype py_arg = PyInt int | PyNone | PyOther

section \<open>Extractive summarisation: the function\<close>

text \<open>\<^verbatim>\<open>str.lower\<close>, on the ASCII letters.\<close>

definition lower_char :: "char \<Rightarrow> char" where
  "lower_char c =
     (if 65 \<le> (of_char c :: nat) \<and> (of_char c :: nat) \<le> 90
      then char_of (of_char c + 32 :: nat) else c)"

definition lower :: "string \<Rightarrow> string" where
  "lower s = map lower_char s"

definition informative :: "token \<Rightarrow> bool" where
  "informative t = (\<not> is_stop t \<and> \<not> is_punct t)"

text \<open>
  \<^verbatim>\<open>words = [token.text.lower() for token in doc
             if not token.is_stop and not token.is_punct]\<close>
\<close>

definition words :: "span list \<Rightarrow> string list" where
  "words sentences = map (\<lambda>t. lower (tok_text t)) (filter informative (doc_tokens sentences))"

text \<open>
  \<^verbatim>\<open>Counter(words)\<close>: a dictionary with one key per distinct element, holding the
  number of its occurrences. \<^verbatim>\<open>Counter\<close> adds one to the entry of each element in
  turn, starting from the empty dictionary.
\<close>

definition count_elem :: "'a \<Rightarrow> ('a \<rightharpoonup> int) \<Rightarrow> ('a \<rightharpoonup> int)" where
  "count_elem w d = d(w \<mapsto> (case d w of None \<Rightarrow> 0 | Some n \<Rightarrow> n) + 1)"

definition Counter :: "'a list \<Rightarrow> ('a \<rightharpoonup> int)" where
  "Counter ws = fold count_elem ws Map.empty"

text \<open>\<^verbatim>\<open>d.get(w, 0)\<close>\<close>

definition get :: "('a \<rightharpoonup> int) \<Rightarrow> 'a \<Rightarrow> int \<Rightarrow> int" where
  "get d w dflt = (case d w of None \<Rightarrow> dflt | Some n \<Rightarrow> n)"

text \<open>
  \<^verbatim>\<open>sent_words = [token.text.lower() for token in sent
                  if not token.is_stop and not token.is_punct]
  score = sum(word_freq.get(w, 0) for w in sent_words)\<close>
\<close>

definition sent_words :: "span \<Rightarrow> string list" where
  "sent_words sent = map (\<lambda>t. lower (tok_text t)) (filter informative (span_tokens sent))"

definition score :: "(string \<rightharpoonup> int) \<Rightarrow> span \<Rightarrow> int" where
  "score word_freq sent = sum_list (map (\<lambda>w. get word_freq w 0) (sent_words sent))"

definition word_freq :: "span list \<Rightarrow> (string \<rightharpoonup> int)" where
  "word_freq sentences = Counter (words sentences)"

definition sent_scores :: "span list \<Rightarrow> (int \<times> span) list" where
  "sent_scores sentences = map (\<lambda>sent. (score (word_freq sentences) sent, sent)) sentences"

text \<open>
  \<^verbatim>\<open>sorted(sent_scores, reverse=True)\<close> compares the tuples \<^verbatim>\<open>(score, sent)\<close>
  themselves: by score, and for equal scores by the spans, that is by their offset.
  \<open>tuple_key\<close> is what these comparisons look at. With \<^verbatim>\<open>reverse=True\<close> Python
  reverses the list, sorts it in ascending order with its stable sort, and reverses
  the result.
\<close>

definition tuple_key :: "int \<times> span \<Rightarrow> int \<times> nat" where
  "tuple_key x = (fst x, start_char (snd x))"

definition sorted_reverse :: "(int \<times> span) list \<Rightarrow> (int \<times> span) list" where
  "sorted_reverse xs = rev (sort_key tuple_key (rev xs))"

text \<open>The slice \<^verbatim>\<open>xs[:k]\<close>.\<close>

fun slice_to :: "'a list \<Rightarrow> py_arg \<Rightarrow> error + 'a list" where
  "slice_to xs (PyInt k) =
     Inr (if k < 0 then take (nat (int (length xs) + k)) xs else take (nat k) xs)"
| "slice_to xs PyNone = Inr xs"
| "slice_to xs PyOther = Inl TypeError"

text \<open>
  \<^verbatim>\<open>sentences.index(x)\<close>: the position of the first element equal to \<^verbatim>\<open>x\<close>;
  \<^verbatim>\<open>ValueError\<close> (here \<open>None\<close>) when there is none.
\<close>

fun index :: "'a list \<Rightarrow> 'a \<Rightarrow> nat option" where
  "index [] x = None"
| "index (y # ys) x = (if y = x then Some 0 else map_option Suc (index ys x))"

text \<open>
  \<^verbatim>\<open>sorted(top_sents, key=lambda x: sentences.index(x[1]))\<close>: Python computes the key
  of every element first (an exception of the key function leaves \<^verbatim>\<open>sorted\<close>), then
  sorts the elements by their keys with its stable sort.
\<close>

fun index_keys :: "span list \<Rightarrow> (int \<times> span) list \<Rightarrow> error + (nat \<times> int \<times> span) list" where
  "index_keys sentences [] = Inr []"
| "index_keys sentences (x # xs) =
     (case index sentences (snd x) of
        None \<Rightarrow> Inl ValueError
      | Some i \<Rightarrow> (case index_keys sentences xs of
                     Inl e \<Rightarrow> Inl e
                   | Inr ks \<Rightarrow> Inr ((i, x) # ks)))"

definition sorted_by_index :: "span list \<Rightarrow> (int \<times> span) list \<Rightarrow> error + (int \<times> span) list" where
  "sorted_by_index sentences sel =
     (case index_keys sentences sel of
        Inl e \<Rightarrow> Inl e
      | Inr ks \<Rightarrow> Inr (map snd (sort_key fst ks)))"

text \<open>\<^verbatim>\<open>sep.join(strs)\<close>\<close>

fun join :: "string \<Rightarrow> string list \<Rightarrow> string" where
  "join sep [] = []"
| "join sep [s] = s"
| "join sep (s # t # ts) = s @ sep @ join sep (t # ts)"

text \<open>
  The two assignments to \<^verbatim>\<open>top_sents\<close>: the \<^verbatim>\<open>num_sentences\<close> first tuples of the
  descending sort (\<open>top_sents\<close>), then these in the order of the document
  (\<open>selected\<close>).
\<close>

definition top_sents :: "span list \<Rightarrow> py_arg \<Rightarrow> error + (int \<times> span) list" where
  "top_sents sentences num_sentences =
     slice_to (sorted_reverse (sent_scores sentences)) num_sentences"

definition selected :: "span list \<Rightarrow> py_arg \<Rightarrow> error + (int \<times> span) list" where
  "selected sentences num_sentences =
     (case top_sents sentences num_sentences of
        Inl e \<Rightarrow> Inl e
      | Inr sel \<Rightarrow> sorted_by_index sentences sel)"

definition extractive_summary :: "span list \<Rightarrow> py_arg \<Rightarrow> error + string" where
  "extractive_summary sentences num_sentences =
     (case selected sentences num_sentences of
        Inl e \<Rightarrow> Inl e
      | Inr sel \<Rightarrow> Inr (join '' '' (map (\<lambda>s. span_text (snd s)) sel)))"

section \<open>Runs of the extractive summariser\<close>

text \<open>
  To speak about two invocations, a run of \<^verbatim>\<open>extractive_summary\<close> is described
  without fixing what the sorting routine does with elements it cannot tell apart:
  \<^verbatim>\<open>sorted\<close> may return any rearrangement of its input that is in ascending order
  of the keys (descending with \<^verbatim>\<open>reverse=True\<close>). Every other step of the function
  is a function of its arguments. \<open>ranked\<close> is what the first call of \<^verbatim>\<open>sorted\<close>
  returns in the run, \<open>ordered\<close> what the second returns (with the keys), and
  \<open>out\<close> the outcome of the run.
\<close>

definition sorted_result :: "('a \<Rightarrow> 'k :: linorder) \<Rightarrow> 'a list \<Rightarrow> 'a list \<Rightarrow> bool" where
  "sorted_result key xs ys = (mset ys = mset xs \<and> sorted (map key ys))"

definition summary_run ::
  "span list \<Rightarrow> py_arg \<Rightarrow> (int \<times> span) list \<Rightarrow> (nat \<times> int \<times> span) list
     \<Rightarrow> error + string \<Rightarrow> bool" where
  "summary_run sentences num_sentences ranked ordered out =
     (sorted_result tuple_key (sent_scores sentences) (rev ranked) \<and>
      (case slice_to ranked num_sentences of
         Inl e \<Rightarrow> out = Inl e
       | Inr tops \<Rightarrow>
           (case index_keys sentences tops of
              Inl e \<Rightarrow> out = Inl e
            | Inr ks \<Rightarrow>
                sorted_result fst ks ordered \<and>
                out = Inr (join '' '' (map (\<lambda>x. span_text (snd (snd x))) ordered)))))"

section \<open>Preprocessing of the dataset\<close>

text \<open>
  \<^verbatim>\<open>preprocess_df(df)\<close> works on a pandas data frame with the columns \<^verbatim>\<open>id\<close>,
  \<^verbatim>\<open>article\<close> and \<^verbatim>\<open>highlights\<close>. The frame is the list of its rows, in order; a
  missing value (NaN) of a text column is \<open>None\<close>.
\<close>

record row =
  row_id :: string
  article :: "string option"
  highlights :: "string option"

text \<open>\<^verbatim>\<open>df.dropna(subset=['article', 'highlights'])\<close>\<close>

definition dropna :: "row list \<Rightarrow> row list" where
  "dropna df = filter (\<lambda>r. article r \<noteq> None \<and> highlights r \<noteq> None) df"

text \<open>
  \<^verbatim>\<open>.str.strip()\<close> removes the whitespace at both ends of every string of the column
  and leaves a missing value missing. The whitespace characters are those of
  \<^verbatim>\<open>str.isspace\<close> in the ASCII range: tab, line feed, vertical tab, form feed,
  carriage return, the four separators 28 to 31, and the space.
\<close>

definition isspace :: "char \<Rightarrow> bool" where
  "isspace c = ((of_char c :: nat) \<in> {9, 10, 11, 12, 13, 28, 29, 30, 31, 32})"

definition strip :: "string \<Rightarrow> string" where
  "strip s = rev (dropWhile isspace (rev (dropWhile isspace s)))"

definition str_strip :: "string option \<Rightarrow> string option" where
  "str_strip v = map_option strip v"

text \<open>
  \<^verbatim>\<open>df.drop_duplicates(subset=['article', 'highlights'])\<close> keeps, of the rows with
  the same values in the two columns, the first one (\<^verbatim>\<open>keep='first'\<close> is the default):
  a row is dropped when its values have been seen on an earlier row.
\<close>

definition subset_key :: "row \<Rightarrow> string option \<times> string option" where
  "subset_key r = (article r, highlights r)"

fun drop_duplicates_from ::
  "(string option \<times> string option) list \<Rightarrow> row list \<Rightarrow> row list" where
  "drop_duplicates_from seen [] = []"
| "drop_duplicates_from seen (r # rs) =
     (if subset_key r \<in> set seen then drop_duplicates_from seen rs
      else r # drop_duplicates_from (subset_key r # seen) rs)"

definition drop_duplicates :: "row list \<Rightarrow> row list" where
  "drop_duplicates df = drop_duplicates_from [] df"

text \<open>
  The function itself; \<^verbatim>\<open>reset_index(drop=True)\<close> renumbers the rows, which a list
  does by itself.
\<close>

definition preprocess_df :: "row list \<Rightarrow> row list" where
  "preprocess_df df =
     (let df1 = dropna df;
          df2 = map (\<lambda>r. r\<lparr>article := str_strip (article r)\<rparr>) df1;
          df3 = map (\<lambda>r. r\<lparr>highlights := str_strip (highlights r)\<rparr>) df2;
          df4 = filter (\<lambda>r. article r \<noteq> Some [] \<and> highlights r \<noteq> Some []) df3
      in drop_duplicates df4)"

section \<open>The Overlap Evaluator\<close>

text \<open>
  The notebook evaluates summaries with
  \<^verbatim>\<open>rouge_scorer.RougeScorer(['rouge1', 'rouge2', 'rougeL'], use_stemmer=True)\<close> and
  \<^verbatim>\<open>scorer.score(reference_summary, model_summary)\<close>. The scorer is the
  \<^verbatim>\<open>rouge_score\<close> package: the notebook calls it and holds none of its code. The
  definitions of this section follow the specification of the Overlap Evaluator instead,
  on token sequences (after tokenisation and the optional stemming, which the
  specification leaves to collaborators). Precision, recall and F-measure are exact
  rationals here.
\<close>

text \<open>
  Modelled from the spec: the variants \<^verbatim>\<open>unigram\<close>, \<^verbatim>\<open>bigram\<close> and \<^verbatim>\<open>lcs\<close> of
  the evaluator; the scorer's code is not in the repository.
\<close>

datatype variant = Unigram | Bigram | Lcs

text \<open>
  Modelled from the spec: an OverlapScore, the triple (precision, recall, F-measure); the
  scorer's code is not in the repository.
\<close>

record overlap_score =
  precision :: rat
  recall :: rat
  fmeasure :: rat

text \<open>
  Modelled from the spec: the n-grams of a token sequence (``a contiguous sequence of n
  tokens''), in order of position; the scorer's code that builds them is not in the
  repository.
\<close>

definition ngrams :: "nat \<Rightarrow> 'a list \<Rightarrow> 'a list list" where
  "ngrams n tokens = map (\<lambda>i. take n (drop i tokens)) [0..<Suc (length tokens) - n]"

text \<open>
  Modelled from the spec: ``overlapCount = sum over distinct n-grams of
  min(countInReference, countInCandidate)'', the counts being those of the two multisets
  of n-grams; the scorer's code is not in the repository.
\<close>

definition overlap_count :: "'a list list \<Rightarrow> 'a list list \<Rightarrow> nat" where
  "overlap_count ref_ngrams cand_ngrams =
     (\<Sum>g\<leftarrow>remdups (ref_ngrams @ cand_ngrams).
        min (count_list ref_ngrams g) (count_list cand_ngrams g))"

text \<open>
  Modelled from the spec: the division behind the quotients, which fails on a zero
  divisor (the ``zero-division cases'' that must ``yield 0, never an exception''); the
  scorer's code is not in the repository.
\<close>

definition checked_div :: "rat \<Rightarrow> rat \<Rightarrow> error + rat" where
  "checked_div a b = (if b = 0 then Inl ZeroDivisionError else Inr (a / b))"

text \<open>
  Modelled from the spec: ``precision = overlapCount / |candidate n-grams| (0 if candidate
  has none)'', and the same for recall with the reference; the scorer's code is not in
  the repository.
\<close>

definition ratio :: "nat \<Rightarrow> nat \<Rightarrow> error + rat" where
  "ratio a n = (if n = 0 then Inr 0 else checked_div (of_nat a) (of_nat n))"

text \<open>
  Modelled from the spec: ``F = 2PR/(P+R) (0 if P+R = 0)''; the scorer's code is not in
  the repository.
\<close>

definition f_measure :: "rat \<Rightarrow> rat \<Rightarrow> error + rat" where
  "f_measure p r = (if p + r = 0 then Inr 0 else checked_div (2 * p * r) (p + r))"

text \<open>
  Modelled from the spec: the triple (precision, recall, F-measure) of an overlap, given
  the number of candidate items and of reference items; the scorer's code is not in the
  repository.
\<close>

definition overlap_score_of :: "nat \<Rightarrow> nat \<Rightarrow> nat \<Rightarrow> error + overlap_score" where
  "overlap_score_of overlap n_cand n_ref =
     (case ratio overlap n_cand of
        Inl e \<Rightarrow> Inl e
      | Inr p \<Rightarrow>
          (case ratio overlap n_ref of
             Inl e \<Rightarrow> Inl e
           | Inr r \<Rightarrow>
               (case f_measure p r of
                  Inl e \<Rightarrow> Inl e
                | Inr f \<Rightarrow> Inr \<lparr>precision = p, recall = r, fmeasure = f\<rparr>)))"

text \<open>
  Modelled from the spec: the n-gram variants of the evaluator; the scorer's code is not
  in the repository.
\<close>

definition ngram_score :: "nat \<Rightarrow> 'a list \<Rightarrow> 'a list \<Rightarrow> error + overlap_score" where
  "ngram_score n reference candidate =
     overlap_score_of (overlap_count (ngrams n reference) (ngrams n candidate))
       (length (ngrams n candidate)) (length (ngrams n reference))"

text \<open>
  Modelled from the spec: ``the length of the longest common subsequence of the reference
  and candidate token sequences'', by the recurrence that the dynamic-programming table
  of the standard algorithm tabulates; the scorer's code is not in the repository.
\<close>

fun lcs_length :: "'a list \<Rightarrow> 'a list \<Rightarrow> nat" where
  "lcs_length [] ys = 0"
| "lcs_length (x # xs) [] = 0"
| "lcs_length (x # xs) (y # ys) =
     (if x = y then Suc (lcs_length xs ys)
      else max (lcs_length xs (y # ys)) (lcs_length (x # xs) ys))"

text \<open>
  Modelled from the spec: the LCS variant, ``precision = lcsLength/|candidate tokens|,
  recall = lcsLength/|reference tokens|, F-measure as above'', a zero division yielding
  0; the scorer's code is not in the repository.
\<close>

definition lcs_score :: "'a list \<Rightarrow> 'a list \<Rightarrow> error + overlap_score" where
  "lcs_score reference candidate =
     overlap_score_of (lcs_length reference candidate) (length candidate) (length reference)"

text \<open>
  Modelled from the spec: \<^verbatim>\<open>score(reference, candidate, variants, useStemmer)\<close> for
  one variant; the scorer's code is not in the repository.
\<close>

fun score_variant :: "variant \<Rightarrow> 'a list \<Rightarrow> 'a list \<Rightarrow> error + overlap_score" where
  "score_variant Unigram reference candidate = ngram_score 1 reference candidate"
| "score_variant Bigram reference candidate = ngram_score 2 reference candidate"
| "score_variant Lcs reference candidate = lcs_score reference candidate"

section \<open>Example documents\<close>

definition word :: "string \<Rightarrow> token" where
  "word w = \<lparr>tok_text = w, is_stop = False, is_punct = False\<rparr>"

definition stopword :: "string \<Rightarrow> token" where
  "stopword w = \<lparr>tok_text = w, is_stop = True, is_punct = False\<rparr>"

definition punct :: "string \<Rightarrow> token" where
  "punct w = \<lparr>tok_text = w, is_stop = False, is_punct = True\<rparr>"

text \<open>
  ``The cat sat. The cat ran fast. Dogs bark loudly at night.'' with the stopwords
  ``the'' and ``at''. The counts are 2 for ``cat'' and 1 for every other word, so the
  sentences score 3, 4 and 4.
\<close>

definition cat_sat :: span where
  "cat_sat = \<lparr>start_char = 0, span_text = ''The cat sat.'',
     span_tokens = [stopword ''The'', word ''cat'', word ''sat'', punct ''.'']\<rparr>"

definition cat_ran :: span where
  "cat_ran = \<lparr>start_char = 13, span_text = ''The cat ran fast.'',
     span_tokens = [stopword ''The'', word ''cat'', word ''ran'', word ''fast'', punct ''.'']\<rparr>"

definition dogs_bark :: span where
  "dogs_bark = \<lparr>start_char = 31, span_text = ''Dogs bark loudly at night.'',
     span_tokens = [word ''Dogs'', word ''bark'', word ''loudly'', stopword ''at'',
                    word ''night'', punct ''.'']\<rparr>"

definition cat_doc :: "span list" where
  "cat_doc = [cat_sat, cat_ran, dogs_bark]"

text \<open>``Cat. It is. Dog.'': two sentences of score 1 around one of score 0.\<close>

definition cat_sent :: span where
  "cat_sent = \<lparr>start_char = 0, span_text = ''Cat.'', span_tokens = [word ''Cat'', punct ''.'']\<rparr>"

definition it_is :: span where
  "it_is = \<lparr>start_char = 5, span_text = ''It is.'',
     span_tokens = [stopword ''It'', stopword ''is'', punct ''.'']\<rparr>"

definition dog_sent :: span where
  "dog_sent = \<lparr>start_char = 12, span_text = ''Dog.'', span_tokens = [word ''Dog'', punct ''.'']\<rparr>"

definition pets_doc :: "span list" where
  "pets_doc = [cat_sent, it_is, dog_sent]"

text \<open>A frame with a missing article, a blank article and a row that repeats the first after trimming.\<close>

definition example_df :: "row list" where
  "example_df =
     [\<lparr>row_id = ''1'', article = Some '' a b  '', highlights = Some ''h''\<rparr>,
      \<lparr>row_id = ''2'', article = None, highlights = Some ''h''\<rparr>,
      \<lparr>row_id = ''3'', article = Some ''   '', highlights = Some ''h''\<rparr>,
      \<lparr>row_id = ''4'', article = Some ''a b'', highlights = Some ''h ''\<rparr>,
      \<lparr>row_id = ''5'', article = Some ''c'', highlights = Some ''h''\<rparr>]"

section \<open>Verification: the frequency table and the sentence scores\<close>

lemma get_count_elem: "get (count_elem v d) w 0 = get d w 0 + (if v = w then 1 else 0)"
  by (simp add: count_elem_def get_def)

lemma count_elem_other: "v \<noteq> w \<Longrightarrow> count_elem v d w = d w"
  by (simp add: count_elem_def)

lemma count_elem_same: "count_elem w d w = Some (get d w 0 + 1)"
  by (simp add: count_elem_def get_def)

lemma fold_count_elem:
  "fold count_elem ws d w =
     (if w \<in> set ws then Some (get d w 0 + int (count_list ws w)) else d w)"
proof (induction ws arbitrary: d)
  case Nil
  show ?case by simp
next
  case (Cons v ws)
  have "fold count_elem (v # ws) d w = fold count_elem ws (count_elem v d) w"
    by simp
  also have "\<dots> = (if w \<in> set ws then Some (get (count_elem v d) w 0 + int (count_list ws w))
                    else count_elem v d w)"
    by (rule Cons.IH)
  also have "\<dots> = (if w \<in> set (v # ws) then Some (get d w 0 + int (count_list (v # ws) w)) else d w)"
    by (cases "v = w") (simp_all add: get_count_elem count_elem_other count_elem_same count_list_0_iff)
  finally show ?case .
qed

lemma Counter_lookup:
  "Counter ws w = (if w \<in> set ws then Some (int (count_list ws w)) else None)"
  by (simp add: Counter_def fold_count_elem get_def)

lemma get_Counter: "get (Counter ws) w 0 = int (count_list ws w)"
  by (simp add: get_def Counter_lookup count_list_0_iff)


lemma index_Some_iff: "index xs x = Some i \<longleftrightarrow> i < length xs \<and> xs ! i = x \<and> x \<notin> set (take i xs)"
proof (induction xs arbitrary: i)
  case Nil
  show ?case by simp
next
  case (Cons y ys)
  show ?case
  proof (cases i)
    case 0
    then show ?thesis by auto
  next
    case (Suc j)
    then show ?thesis using Cons.IH [of j] by auto
  qed
qed

lemma index_nth_distinct: "distinct xs \<Longrightarrow> i < length xs \<Longrightarrow> index xs (xs ! i) = Some i"
  unfolding index_Some_iff
  by (auto simp: distinct_conv_nth in_set_conv_nth)

lemma index_None_iff: "index xs x = None \<longleftrightarrow> x \<notin> set xs"
  by (induction xs) auto

lemma sorted_key_unique:
  assumes "sorted (map f xs)" "sorted (map f ys)" "distinct (map f xs)" "mset xs = mset ys"
  shows "xs = ys"
proof -
  have m: "mset (map f xs) = mset (map f ys)"
    using assms(4) by simp
  have dy: "distinct (map f ys)"
    using assms(3) m by (metis mset_eq_imp_distinct_iff)
  have "set (map f xs) = set (map f ys)"
    using m by (metis mset_eq_setD)
  then have e: "map f xs = map f ys"
    using assms(1,2,3) dy by (rule_tac sorted_distinct_set_unique)
  have s: "set xs = set ys"
    using assms(4) by (metis mset_eq_setD)
  have "inj_on f (set xs \<union> set ys)"
    using assms(3) s by (simp add: distinct_map)
  then show ?thesis
    using e by (simp add: inj_on_map_eq_map)
qed






lemmas example_defs =
  cat_doc_def cat_sat_def cat_ran_def dogs_bark_def
  pets_doc_def cat_sent_def it_is_def dog_sent_def word_def stopword_def punct_def

lemmas pipeline_defs =
  extractive_summary_def selected_def top_sents_def sorted_by_index_def sorted_reverse_def
  tuple_key_def sent_scores_def score_def sent_words_def word_freq_def Counter_def
  count_elem_def get_def words_def doc_tokens_def informative_def lower_def lower_char_def


section \<open>Verification: ranking and selection\<close>

lemma doc_sents_distinct: "doc_sents sentences \<Longrightarrow> distinct (map start_char sentences)"
  unfolding doc_sents_def by (simp add: strict_sorted_iff)

lemma doc_sents_distinct_spans: "doc_sents sentences \<Longrightarrow> distinct sentences"
  using doc_sents_distinct distinct_map by blast

lemma map_snd_sent_scores: "map snd (sent_scores sentences) = sentences"
  by (simp add: sent_scores_def comp_def)

lemma start_char_sent_scores:
  "map (\<lambda>x. start_char (snd x)) (sent_scores sentences) = map start_char sentences"
  by (simp add: sent_scores_def comp_def)

lemma distinct_sent_scores: "doc_sents sentences \<Longrightarrow> distinct (sent_scores sentences)"
  using doc_sents_distinct_spans [of sentences] map_snd_sent_scores [of sentences]
  by (metis distinct_map)

lemma distinct_keys_sent_scores:
  assumes "doc_sents sentences"
  shows "distinct (map tuple_key (sent_scores sentences))"
proof -
  have "distinct (map snd (map tuple_key (sent_scores sentences)))"
    using doc_sents_distinct [OF assms]
    by (simp add: tuple_key_def comp_def start_char_sent_scores)
  then show ?thesis
    by (metis distinct_map)
qed

lemma mset_sorted_reverse: "mset (sorted_reverse xs) = mset xs"
  by (simp add: sorted_reverse_def)

lemma set_sorted_reverse: "set (sorted_reverse xs) = set xs"
  by (simp add: sorted_reverse_def)

lemma sorted_reverse_descending:
  "sorted (map tuple_key (rev (sorted_reverse xs)))"
  by (simp add: sorted_reverse_def)

lemma sorted_reverse_sorted_wrt:
  "sorted_wrt (\<lambda>a b. tuple_key b \<le> tuple_key a) (sorted_reverse xs)"
proof -
  have "sorted_wrt (\<lambda>a b. tuple_key a \<le> tuple_key b) (rev (sorted_reverse xs))"
    using sorted_reverse_descending [of xs] by (simp only: sorted_map)
  then show ?thesis
    by (simp only: sorted_wrt_rev)
qed

lemma slice_to_take: "slice_to xs k = Inr ys \<Longrightarrow> \<exists>m. ys = take m xs"
  by (cases k) (auto intro: exI [of _ "length xs"])

lemma index_keys_Inr:
  "snd ` set sel \<subseteq> set sentences \<Longrightarrow>
   index_keys sentences sel = Inr (map (\<lambda>x. (the (index sentences (snd x)), x)) sel)"
proof (induction sel)
  case Nil
  show ?case by simp
next
  case (Cons x sel)
  then obtain i where "index sentences (snd x) = Some i"
    using index_None_iff [of sentences "snd x"] by fastforce
  with Cons show ?case by simp
qed

lemma index_sent_scores:
  assumes "doc_sents sentences"
  shows "map (\<lambda>x. the (index sentences (snd x))) (sent_scores sentences) = [0..<length sentences]"
proof (rule nth_equalityI)
  show "length (map (\<lambda>x. the (index sentences (snd x))) (sent_scores sentences)) = length [0..<length sentences]"
    by (simp add: sent_scores_def)
next
  fix i
  assume "i < length (map (\<lambda>x. the (index sentences (snd x))) (sent_scores sentences))"
  then have i: "i < length sentences"
    by (simp add: sent_scores_def)
  then have "index sentences (sentences ! i) = Some i"
    using doc_sents_distinct_spans [OF assms] by (simp add: index_nth_distinct)
  with i show "map (\<lambda>x. the (index sentences (snd x))) (sent_scores sentences) ! i = [0..<length sentences] ! i"
    by (simp add: sent_scores_def)
qed

lemma sorted_by_index_filter:
  assumes d: "doc_sents sentences"
    and sub: "set sel \<subseteq> set (sent_scores sentences)"
    and dis: "distinct sel"
  shows "sorted_by_index sentences sel = Inr [x\<leftarrow>sent_scores sentences. x \<in> set sel]"
proof -
  let ?g = "\<lambda>x. (the (index sentences (snd x)), x)"
  let ?T = "[x\<leftarrow>sent_scores sentences. x \<in> set sel]"
  have "snd ` set sel \<subseteq> snd ` set (sent_scores sentences)"
    using sub by blast
  also have "\<dots> = set sentences"
    using map_snd_sent_scores [of sentences] by (metis set_map)
  finally have k: "index_keys sentences sel = Inr (map ?g sel)"
    by (rule index_keys_Inr)
  have fg: "map fst (map ?g xs) = map (\<lambda>x. the (index sentences (snd x))) xs" for xs
    by (simp add: comp_def)
  have s1: "sorted (map fst (sort_key fst (map ?g sel)))"
    by (rule sorted_sort_key)
  have "sorted (map (\<lambda>x. the (index sentences (snd x))) ?T)"
    by (rule sorted_filter) (simp add: index_sent_scores [OF d])
  then have s2: "sorted (map fst (map ?g ?T))"
    by (simp only: fg)
  have "distinct (map (\<lambda>x. the (index sentences (snd x))) ?T)"
    by (rule distinct_map_filter) (simp add: index_sent_scores [OF d])
  then have d2: "distinct (map fst (map ?g ?T))"
    by (simp only: fg)
  have "set ?T = set sel"
    using sub by auto
  moreover have "distinct ?T"
    using distinct_sent_scores [OF d] by (rule distinct_filter)
  ultimately have m: "mset ?T = mset sel"
    using dis by (simp only: set_eq_iff_mset_eq_distinct)
  have "mset (map ?g ?T) = mset (map ?g sel)"
    by (simp only: mset_map m)
  then have mm: "mset (map ?g ?T) = mset (sort_key fst (map ?g sel))"
    by (simp only: mset_sort)
  have "map ?g ?T = sort_key fst (map ?g sel)"
    using s2 s1 d2 mm by (rule sorted_key_unique)
  then have "map snd (sort_key fst (map ?g sel)) = ?T"
    by (metis (no_types, lifting) map_map map_idI comp_def snd_conv)
  then show ?thesis
    by (simp add: sorted_by_index_def k)
qed


lemma set_sent_scores:
  "set (sent_scores sentences) = (\<lambda>s. (score (word_freq sentences) s, s)) ` set sentences"
  by (simp add: sent_scores_def)

lemma top_sents_take:
  assumes "top_sents sentences k = Inr tops"
  shows "\<exists>m. tops = take m (sorted_reverse (sent_scores sentences))"
  using assms unfolding top_sents_def by (rule slice_to_take)

lemma top_sents_subset:
  assumes "top_sents sentences k = Inr tops"
  shows "set tops \<subseteq> set (sent_scores sentences)"
proof -
  obtain m where "tops = take m (sorted_reverse (sent_scores sentences))"
    using top_sents_take [OF assms] by blast
  then have "set tops \<subseteq> set (sorted_reverse (sent_scores sentences))"
    by (simp add: set_take_subset)
  then show ?thesis
    by (simp only: set_sorted_reverse)
qed

lemma distinct_sorted_reverse:
  "doc_sents sentences \<Longrightarrow> distinct (sorted_reverse (sent_scores sentences))"
  using distinct_sent_scores [of sentences] mset_sorted_reverse [of "sent_scores sentences"]
  by (metis mset_eq_imp_distinct_iff)

lemma top_sents_distinct:
  assumes "doc_sents sentences" "top_sents sentences k = Inr tops"
  shows "distinct tops"
proof -
  obtain m where "tops = take m (sorted_reverse (sent_scores sentences))"
    using top_sents_take [OF assms(2)] by blast
  then show ?thesis
    using distinct_sorted_reverse [OF assms(1)] by simp
qed

lemma selected_filter:
  assumes "doc_sents sentences" "top_sents sentences k = Inr tops"
  shows "selected sentences k = Inr [x\<leftarrow>sent_scores sentences. x \<in> set tops]"
  using sorted_by_index_filter [OF assms(1) top_sents_subset [OF assms(2)] top_sents_distinct [OF assms]]
  by (simp add: selected_def assms(2))

lemma selected_returns:
  assumes "top_sents sentences k = Inr tops"
  shows "\<exists>sel. selected sentences k = Inr sel"
proof -
  have "snd ` set tops \<subseteq> snd ` set (sent_scores sentences)"
    using top_sents_subset [OF assms] by blast
  also have "\<dots> = set sentences"
    using map_snd_sent_scores [of sentences] by (metis set_map)
  finally have "index_keys sentences tops = Inr (map (\<lambda>x. (the (index sentences (snd x)), x)) tops)"
    by (rule index_keys_Inr)
  then show ?thesis
    by (simp add: selected_def assms sorted_by_index_def)
qed

lemma prefix_ranks_higher:
  assumes s: "sorted_wrt (\<lambda>a b. f b \<le> f a) xs" and d: "distinct (map f xs)"
    and a: "a \<in> set (take m xs)" and b: "b \<in> set xs" "b \<notin> set (take m xs)"
  shows "f b < (f a :: 'k :: linorder)"
proof -
  have x: "xs = take m xs @ drop m xs"
    by simp
  from b have bd: "b \<in> set (drop m xs)"
    by (metis x Un_iff set_append)
  have "sorted_wrt (\<lambda>a b. f b \<le> f a) (take m xs @ drop m xs)"
    using s by simp
  then have le: "f b \<le> f a"
    using a bd unfolding sorted_wrt_append by blast
  have "a \<in> set xs"
    using a by (rule in_set_takeD)
  moreover have "a \<noteq> b"
    using a b(2) by blast
  moreover have "inj_on f (set xs)"
    using d by (simp add: distinct_map)
  ultimately have "f a \<noteq> f b"
    using b(1) by (auto dest: inj_onD)
  with le show ?thesis by simp
qed

lemma top_sents_rank:
  assumes d: "doc_sents sentences" and t: "top_sents sentences k = Inr tops"
    and a: "a \<in> set tops" and b: "b \<in> set (sent_scores sentences)" "b \<notin> set tops"
  shows "tuple_key b < tuple_key a"
proof -
  let ?R = "sorted_reverse (sent_scores sentences)"
  obtain m where m: "tops = take m ?R"
    using top_sents_take [OF t] by blast
  have "mset (map tuple_key ?R) = mset (map tuple_key (sent_scores sentences))"
    by (simp only: mset_map mset_sorted_reverse)
  then have dk: "distinct (map tuple_key ?R)"
    using distinct_keys_sent_scores [OF d] by (metis mset_eq_imp_distinct_iff)
  have "b \<in> set ?R"
    using b(1) by (simp only: set_sorted_reverse)
  then show ?thesis
    using prefix_ranks_higher [OF sorted_reverse_sorted_wrt dk, of a m b] a b(2) m by simp
qed

lemma length_sorted_reverse: "length (sorted_reverse xs) = length xs"
  by (simp add: sorted_reverse_def)

lemma summary_of_selected:
  "selected sentences k = Inr sel \<Longrightarrow>
   extractive_summary sentences k = Inr (join '' '' (map span_text (map snd sel)))"
  by (simp add: extractive_summary_def comp_def)

text \<open>
  C4. For a document whose sentences are in document order (\<open>doc_sents\<close>) and every
  integer \<open>k\<close> that is at least the number of sentences, the selection step returns
  every sentence of the document, in the original order, and the summary is all the
  sentence texts joined by single spaces.
\<close>

theorem select_all:
  assumes "doc_sents sentences" and "int (length sentences) \<le> k"
  shows "selected sentences (PyInt k) = Inr (sent_scores sentences)
       \<and> map snd (sent_scores sentences) = sentences
       \<and> extractive_summary sentences (PyInt k) = Inr (join '' '' (map span_text sentences))"
proof -
  let ?R = "sorted_reverse (sent_scores sentences)"
  have "length ?R \<le> nat k"
    using assms(2) by (simp add: length_sorted_reverse sent_scores_def)
  then have t: "top_sents sentences (PyInt k) = Inr ?R"
    using assms(2) by (simp add: top_sents_def)
  have "[x\<leftarrow>sent_scores sentences. x \<in> set ?R] = sent_scores sentences"
    by (simp add: set_sorted_reverse)
  then have s: "selected sentences (PyInt k) = Inr (sent_scores sentences)"
    using selected_filter [OF assms(1) t] by simp
  show ?thesis
    using s summary_of_selected [OF s] by (simp add: map_snd_sent_scores)
qed

text \<open>
  C10. For a document of \<open>s\<close> sentences and \<open>num_sentences = -n\<close> with \<open>n > 0\<close>,
  \<open>extractive_summary\<close> returns normally. Its result joins the texts of \<open>s - n\<close>
  sentences (none when \<open>n \<ge> s\<close>), taken in document order, and each of them ranks
  above every sentence left out, in the order of the descending sort (score first, then
  position): the \<open>n\<close> lowest-ranked sentences are the ones dropped. For
  \<open>n \<ge> s\<close> the result is the empty string.
\<close>

theorem negative_num_sentences:
  assumes "doc_sents sentences" and "0 < n"
  shows "\<exists>sel. extractive_summary sentences (PyInt (- int n)) = Inr (join '' '' (map span_text sel))
          \<and> subseq sel sentences
          \<and> length sel = length sentences - n
          \<and> (\<forall>a\<in>set sel. \<forall>b\<in>set sentences - set sel.
                (score (word_freq sentences) b, start_char b)
                  < (score (word_freq sentences) a, start_char a))
          \<and> (length sentences \<le> n \<longrightarrow> extractive_summary sentences (PyInt (- int n)) = Inr [])"
proof -
  let ?R = "sorted_reverse (sent_scores sentences)"
  let ?m = "length sentences - n"
  let ?tops = "take ?m ?R"
  let ?P = "[x\<leftarrow>sent_scores sentences. x \<in> set ?tops]"
  let ?sel = "map snd ?P"
  have "nat (int (length ?R) + - int n) = ?m"
    by (simp add: length_sorted_reverse sent_scores_def)
  then have t: "top_sents sentences (PyInt (- int n)) = Inr ?tops"
    using assms(2) by (simp add: top_sents_def)
  have s: "selected sentences (PyInt (- int n)) = Inr ?P"
    using assms(1) t by (rule selected_filter)
  have 1: "extractive_summary sentences (PyInt (- int n)) = Inr (join '' '' (map span_text ?sel))"
    using s by (rule summary_of_selected)
  have "subseq (map snd ?P) (map snd (sent_scores sentences))"
    by (rule subseq_map) (rule subseq_filter_left)
  then have 2: "subseq ?sel sentences"
    by (simp only: map_snd_sent_scores)
  have "set ?P = set ?tops"
    using top_sents_subset [OF t] by auto
  moreover have "distinct ?P"
    using distinct_sent_scores [OF assms(1)] by (rule distinct_filter)
  ultimately have "mset ?P = mset ?tops"
    using top_sents_distinct [OF assms(1) t] by (simp only: set_eq_iff_mset_eq_distinct)
  then have "length ?P = length ?tops"
    by (rule mset_eq_length)
  then have 3: "length ?sel = ?m"
    by (simp add: length_sorted_reverse sent_scores_def)
  have 4: "(score (word_freq sentences) b, start_char b) < (score (word_freq sentences) a, start_char a)"
    if a: "a \<in> set ?sel" and b: "b \<in> set sentences - set ?sel" for a b
  proof -
    let ?a = "(score (word_freq sentences) a, a)" and ?b = "(score (word_freq sentences) b, b)"
    have "?a \<in> set ?tops"
      using a by (auto simp: set_sent_scores)
    moreover have "?b \<in> set (sent_scores sentences)"
      using b by (simp add: set_sent_scores)
    moreover have "?b \<notin> set ?tops"
    proof
      assume "?b \<in> set ?tops"
      then have "?b \<in> set ?P"
        using \<open>?b \<in> set (sent_scores sentences)\<close> by simp
      then have "b \<in> set ?sel"
        by (metis image_eqI set_map snd_conv)
      with b show False by simp
    qed
    ultimately have "tuple_key ?b < tuple_key ?a"
      using top_sents_rank [OF assms(1) t] by blast
    then show ?thesis
      by (simp add: tuple_key_def)
  qed
  have 5: "extractive_summary sentences (PyInt (- int n)) = Inr []" if "length sentences \<le> n"
    using 1 that by simp
  from 1 2 3 4 5 show ?thesis
    by blast
qed

lemma tie_in_top_sents:
  assumes d: "doc_sents sentences" and ij: "i < j" "j < length sentences"
    and tie: "score (word_freq sentences) (sentences ! i) = score (word_freq sentences) (sentences ! j)"
    and t: "top_sents sentences num_sentences = Inr tops"
    and i: "sentences ! i \<in> snd ` set tops"
  shows "sentences ! j \<in> snd ` set tops"
proof (rule ccontr)
  assume n: "sentences ! j \<notin> snd ` set tops"
  let ?a = "(score (word_freq sentences) (sentences ! i), sentences ! i)"
  let ?b = "(score (word_freq sentences) (sentences ! j), sentences ! j)"
  have "?a \<in> set tops"
    using i top_sents_subset [OF t] by (auto simp: set_sent_scores)
  moreover have "?b \<in> set (sent_scores sentences)"
    using ij by (simp add: set_sent_scores)
  moreover have "?b \<notin> set tops"
    using n by (metis image_eqI snd_conv)
  ultimately have "tuple_key ?b < tuple_key ?a"
    using top_sents_rank [OF d t] by blast
  then have "start_char (sentences ! j) < start_char (sentences ! i)"
    by (simp add: tuple_key_def tie)
  moreover have "start_char (sentences ! i) < start_char (sentences ! j)"
    using sorted_wrt_nth_less [of "(<)" "map start_char sentences" i j] d ij
    by (simp add: doc_sents_def)
  ultimately show False by simp
qed

lemma tie_in_ranking:
  assumes d: "doc_sents sentences" and ij: "i < j" "j < length sentences"
    and tie: "score (word_freq sentences) (sentences ! i) = score (word_freq sentences) (sentences ! j)"
  shows "\<exists>us vs ws. sorted_reverse (sent_scores sentences) =
           us @ (score (word_freq sentences) (sentences ! j), sentences ! j)
              # vs @ (score (word_freq sentences) (sentences ! i), sentences ! i) # ws"
proof -
  let ?R = "sorted_reverse (sent_scores sentences)"
  let ?a = "(score (word_freq sentences) (sentences ! i), sentences ! i)"
  let ?b = "(score (word_freq sentences) (sentences ! j), sentences ! j)"
  have lt: "start_char (sentences ! i) < start_char (sentences ! j)"
    using sorted_wrt_nth_less [of "(<)" "map start_char sentences" i j] d ij
    by (simp add: doc_sents_def)
  then have key: "tuple_key ?a < tuple_key ?b"
    by (simp add: tuple_key_def tie)
  have "?a \<in> set ?R"
    using ij by (simp add: set_sorted_reverse set_sent_scores)
  then obtain xs ys where R: "?R = xs @ ?a # ys"
    by (auto dest: split_list)
  have "?b \<in> set ?R"
    using ij by (simp add: set_sorted_reverse set_sent_scores)
  moreover have "?b \<noteq> ?a"
    using lt by auto
  moreover have "?b \<notin> set ys"
  proof
    assume "?b \<in> set ys"
    moreover have "sorted_wrt (\<lambda>a b. tuple_key b \<le> tuple_key a) (xs @ ?a # ys)"
      using sorted_reverse_sorted_wrt [of "sent_scores sentences"] by (simp only: R)
    ultimately have "tuple_key ?b \<le> tuple_key ?a"
      by (simp add: sorted_wrt_append)
    with key show False by simp
  qed
  ultimately have "?b \<in> set xs"
    unfolding R by auto
  then obtain us vs where "xs = us @ ?b # vs"
    by (auto dest: split_list)
  then have "?R = us @ ?b # vs @ ?a # ys"
    by (simp add: R)
  then show ?thesis by blast
qed

text \<open>
  C1 (as amended). The descending sort breaks a tie of scores by descending position:
  of two sentences with equal score, the one that comes later in the document stands
  before the other in the sorted list. So whatever \<open>num_sentences\<close> is, when the
  earlier of the two is among the top sentences, the later one is as well.
\<close>

theorem tie_prefers_later_sentence:
  assumes "doc_sents sentences" and "i < j" and "j < length sentences"
    and "score (word_freq sentences) (sentences ! i) = score (word_freq sentences) (sentences ! j)"
  shows "(\<exists>us vs ws. sorted_reverse (sent_scores sentences) =
            us @ (score (word_freq sentences) (sentences ! j), sentences ! j)
               # vs @ (score (word_freq sentences) (sentences ! i), sentences ! i) # ws)
       \<and> (\<forall>num_sentences tops.
             top_sents sentences num_sentences = Inr tops \<and> sentences ! i \<in> snd ` set tops
             \<longrightarrow> sentences ! j \<in> snd ` set tops)"
  using tie_in_ranking [OF assms] tie_in_top_sents [OF assms] by blast

text \<open>
  C3 (as amended). \<open>extractive_summary\<close> does not validate \<open>num_sentences\<close>. A value
  that is neither an integer nor \<open>None\<close> makes the slice raise \<open>TypeError\<close>; every
  integer, negative ones included, and \<open>None\<close> are accepted, and the call returns a
  summary.
\<close>

theorem no_validation_of_num_sentences:
  "extractive_summary sentences PyOther = Inl TypeError
   \<and> (\<exists>out. extractive_summary sentences (PyInt k) = Inr out)
   \<and> (\<exists>out. extractive_summary sentences PyNone = Inr out)"
proof -
  have 1: "extractive_summary sentences PyOther = Inl TypeError"
    by (simp add: extractive_summary_def selected_def top_sents_def)
  have r: "\<exists>out. extractive_summary sentences a = Inr out" if "top_sents sentences a = Inr tops" for a tops
    using selected_returns [OF that] summary_of_selected by blast
  have 2: "\<exists>out. extractive_summary sentences (PyInt k) = Inr out"
    by (rule r) (simp add: top_sents_def)
  have 3: "\<exists>out. extractive_summary sentences PyNone = Inr out"
    by (rule r) (simp add: top_sents_def)
  from 1 2 3 show ?thesis by blast
qed


theorem select_all_witness:
  "doc_sents cat_doc \<and> int (length cat_doc) \<le> 5
   \<and> selected cat_doc (PyInt 5) = Inr (sent_scores cat_doc)
   \<and> map snd (sent_scores cat_doc) = cat_doc
   \<and> extractive_summary cat_doc (PyInt 5) = Inr (join '' '' (map span_text cat_doc))
   \<and> join '' '' (map span_text cat_doc) = ''The cat sat. The cat ran fast. Dogs bark loudly at night.''"
proof -
  have h: "doc_sents cat_doc"
    by (simp add: doc_sents_def example_defs)
  have k: "int (length cat_doc) \<le> 5"
    by (simp add: cat_doc_def)
  have "join '' '' (map span_text cat_doc) = ''The cat sat. The cat ran fast. Dogs bark loudly at night.''"
    by (simp add: example_defs)
  then show ?thesis
    using h k select_all [OF h k] by simp
qed

theorem negative_num_sentences_witness:
  "doc_sents cat_doc \<and> (0::nat) < 1
   \<and> (\<exists>sel. extractive_summary cat_doc (PyInt (- int 1)) = Inr (join '' '' (map span_text sel))
          \<and> subseq sel cat_doc
          \<and> length sel = length cat_doc - 1
          \<and> (\<forall>a\<in>set sel. \<forall>b\<in>set cat_doc - set sel.
                (score (word_freq cat_doc) b, start_char b)
                  < (score (word_freq cat_doc) a, start_char a))
          \<and> (length cat_doc \<le> 1 \<longrightarrow> extractive_summary cat_doc (PyInt (- int 1)) = Inr []))
   \<and> extractive_summary cat_doc (PyInt (- 1)) = Inr ''The cat ran fast. Dogs bark loudly at night.''
   \<and> extractive_summary cat_doc (PyInt (- 3)) = Inr []"
proof -
  have h: "doc_sents cat_doc"
    by (simp add: doc_sents_def example_defs)
  have n: "(0::nat) < 1"
    by simp
  have a: "extractive_summary cat_doc (PyInt (- 1)) = Inr ''The cat ran fast. Dogs bark loudly at night.''"
    by (simp add: example_defs pipeline_defs)
  have b: "extractive_summary cat_doc (PyInt (- 3)) = Inr []"
    by (simp add: example_defs pipeline_defs)
  show ?thesis
    using h n negative_num_sentences [OF h n] a b by blast
qed

text \<open>
  C1, counterexample. In ``The cat sat. The cat ran fast. Dogs bark loudly at night.''
  the second and third sentences both score 4. With \<open>num_sentences = 1\<close> the sort puts
  the third sentence first and the summary is the third sentence, not the earlier second.
\<close>

theorem tie_prefers_earlier_counterexample:
  "score (word_freq cat_doc) cat_ran = 4
   \<and> score (word_freq cat_doc) dogs_bark = 4
   \<and> start_char cat_ran < start_char dogs_bark
   \<and> top_sents cat_doc (PyInt 1) = Inr [(4, dogs_bark)]
   \<and> extractive_summary cat_doc (PyInt 1) = Inr ''Dogs bark loudly at night.''"
  by (simp add: example_defs pipeline_defs)

theorem tie_prefers_later_sentence_witness:
  "doc_sents cat_doc \<and> (1::nat) < 2 \<and> 2 < length cat_doc
   \<and> score (word_freq cat_doc) (cat_doc ! 1) = score (word_freq cat_doc) (cat_doc ! 2)
   \<and> (\<exists>us vs ws. sorted_reverse (sent_scores cat_doc) =
          us @ (score (word_freq cat_doc) (cat_doc ! 2), cat_doc ! 2)
             # vs @ (score (word_freq cat_doc) (cat_doc ! 1), cat_doc ! 1) # ws)
   \<and> sorted_reverse (sent_scores cat_doc) = [(4, dogs_bark), (4, cat_ran), (3, cat_sat)]
   \<and> top_sents cat_doc (PyInt 2) = Inr [(4, dogs_bark), (4, cat_ran)]
   \<and> cat_doc ! 1 \<in> snd ` set [(4 :: int, dogs_bark), (4, cat_ran)]
   \<and> cat_doc ! 2 \<in> snd ` set [(4 :: int, dogs_bark), (4, cat_ran)]"
proof -
  have h: "doc_sents cat_doc"
    by (simp add: doc_sents_def example_defs)
  have i: "(1::nat) < 2" and j: "2 < length cat_doc"
    by (simp_all add: cat_doc_def)
  have e: "score (word_freq cat_doc) (cat_doc ! 1) = score (word_freq cat_doc) (cat_doc ! 2)"
    by (simp add: example_defs pipeline_defs)
  have r: "sorted_reverse (sent_scores cat_doc) = [(4, dogs_bark), (4, cat_ran), (3, cat_sat)]"
    by (simp add: example_defs pipeline_defs)
  have t: "top_sents cat_doc (PyInt 2) = Inr [(4, dogs_bark), (4, cat_ran)]"
    by (simp add: top_sents_def r)
  have m: "cat_doc ! 1 \<in> snd ` set [(4 :: int, dogs_bark), (4, cat_ran)]"
    by (simp add: cat_doc_def)
  have "cat_doc ! 2 \<in> snd ` set [(4 :: int, dogs_bark), (4, cat_ran)]"
    using tie_prefers_later_sentence [OF h i j e] t m by blast
  then show ?thesis
    using h i j e r t m tie_prefers_later_sentence [OF h i j e] by blast
qed

text \<open>
  C3, counterexample. In ``Cat. It is. Dog.'' the call with \<open>num_sentences = -1\<close> is
  not rejected: it returns the summary without the lowest-ranked sentence. Nor is the
  non-integer \<open>None\<close>: it returns all three sentences.
\<close>

theorem negative_k_rejected_counterexample:
  "extractive_summary pets_doc (PyInt (- 1)) = Inr ''Cat. Dog.''
   \<and> extractive_summary pets_doc PyNone = Inr ''Cat. It is. Dog.''"
  by (simp add: example_defs pipeline_defs)

section \<open>Verification: determinism of the extractive path\<close>

lemma sorted_result_unique:
  assumes "sorted_result key xs ys" and "distinct (map key xs)"
  shows "ys = sort_key key xs"
proof -
  have m: "mset ys = mset (sort_key key xs)"
    using assms(1) by (simp add: sorted_result_def)
  have "mset (map key ys) = mset (map key xs)"
    using assms(1) by (simp add: sorted_result_def)
  then have d: "distinct (map key ys)"
    using assms(2) by (metis mset_eq_imp_distinct_iff)
  have s1: "sorted (map key ys)"
    using assms(1) by (simp add: sorted_result_def)
  have s2: "sorted (map key (sort_key key xs))"
    by (rule sorted_sort_key)
  from s1 s2 d m show ?thesis
    by (rule sorted_key_unique)
qed

lemma sorted_result_sort_key: "sorted_result key xs (sort_key key xs)"
  by (simp add: sorted_result_def)

lemma run_ranked:
  assumes d: "doc_sents sentences"
    and r: "sorted_result tuple_key (sent_scores sentences) (rev ranked)"
  shows "ranked = sorted_reverse (sent_scores sentences)"
proof -
  have "sorted_result tuple_key (rev (sent_scores sentences)) (rev ranked)"
    using r by (simp add: sorted_result_def)
  moreover have "distinct (map tuple_key (rev (sent_scores sentences)))"
    using distinct_keys_sent_scores [OF d] by (simp add: rev_map [symmetric])
  ultimately have "rev ranked = sort_key tuple_key (rev (sent_scores sentences))"
    by (rule sorted_result_unique)
  then have "rev (rev ranked) = sorted_reverse (sent_scores sentences)"
    by (simp only: sorted_reverse_def)
  then show ?thesis by simp
qed

lemma index_keys_of_tops:
  assumes "top_sents sentences k = Inr tops"
  shows "index_keys sentences tops = Inr (map (\<lambda>x. (the (index sentences (snd x)), x)) tops)"
proof -
  have "snd ` set tops \<subseteq> snd ` set (sent_scores sentences)"
    using top_sents_subset [OF assms] by blast
  also have "\<dots> = set sentences"
    using map_snd_sent_scores [of sentences] by (metis set_map)
  finally show ?thesis
    by (rule index_keys_Inr)
qed

lemma distinct_index_keys:
  assumes d: "doc_sents sentences" and t: "top_sents sentences k = Inr tops"
  shows "distinct (map fst (map (\<lambda>x. (the (index sentences (snd x)), x)) tops))"
proof -
  let ?i = "\<lambda>x. the (index sentences (snd x))"
  have "distinct (map ?i (sent_scores sentences))"
    by (simp add: index_sent_scores [OF d])
  then have "inj_on ?i (set (sent_scores sentences))"
    by (simp add: distinct_map)
  then have "inj_on ?i (set tops)"
    using top_sents_subset [OF t] by (rule inj_on_subset)
  then have "distinct (map ?i tops)"
    using top_sents_distinct [OF d t] by (simp add: distinct_map)
  then show ?thesis
    by (simp add: comp_def)
qed

lemma run_outcome:
  assumes d: "doc_sents sentences" and r: "summary_run sentences k ranked ordered out"
  shows "out = extractive_summary sentences k"
proof -
  have rk: "ranked = sorted_reverse (sent_scores sentences)"
    using d r by (simp add: summary_run_def run_ranked)
  show ?thesis
  proof (cases "top_sents sentences k")
    case (Inl e)
    then have "slice_to ranked k = Inl e"
      by (simp add: top_sents_def rk)
    then have "out = Inl e"
      using r by (simp add: summary_run_def)
    then show ?thesis
      by (simp add: extractive_summary_def selected_def Inl)
  next
    case (Inr tops)
    let ?ks = "map (\<lambda>x. (the (index sentences (snd x)), x)) tops"
    have sl: "slice_to ranked k = Inr tops"
      using Inr by (simp add: top_sents_def rk)
    have ik: "index_keys sentences tops = Inr ?ks"
      using Inr by (rule index_keys_of_tops)
    have sr: "sorted_result fst ?ks ordered"
      and o: "out = Inr (join '' '' (map (\<lambda>x. span_text (snd (snd x))) ordered))"
      using r by (simp_all add: summary_run_def sl ik)
    have "ordered = sort_key fst ?ks"
      using sr distinct_index_keys [OF d Inr] by (rule sorted_result_unique)
    then have "out = Inr (join '' '' (map (\<lambda>x. span_text (snd (snd x))) (sort_key fst ?ks)))"
      using o by simp
    then show ?thesis
      by (simp add: extractive_summary_def selected_def Inr sorted_by_index_def ik comp_def)
  qed
qed

lemma run_exists:
  "\<exists>ranked ordered. summary_run sentences k ranked ordered (extractive_summary sentences k)"
proof (cases "top_sents sentences k")
  case (Inl e)
  then have "summary_run sentences k (sorted_reverse (sent_scores sentences)) []
               (extractive_summary sentences k)"
    by (simp add: summary_run_def sorted_result_def sorted_reverse_def top_sents_def
        extractive_summary_def selected_def)
  then show ?thesis by blast
next
  case (Inr tops)
  let ?ks = "map (\<lambda>x. (the (index sentences (snd x)), x)) tops"
  have ik: "index_keys sentences tops = Inr ?ks"
    using Inr by (rule index_keys_of_tops)
  have "summary_run sentences k (sorted_reverse (sent_scores sentences)) (sort_key fst ?ks)
               (extractive_summary sentences k)"
    using Inr ik
    by (simp add: summary_run_def sorted_result_def sorted_reverse_def top_sents_def
        extractive_summary_def selected_def sorted_by_index_def comp_def)
  then show ?thesis by blast
qed

text \<open>
  C9. For a document whose sentences are in document order, any two runs of
  \<open>extractive_summary\<close> on the same document and the same \<open>num_sentences\<close> have
  the same outcome (the same summary, character for character, or the same error), even
  when the sorting routine is free in how it arranges elements of equal key: the keys of
  both sorts are pairwise different, so there is one sorted arrangement only. The
  function \<open>extractive_summary\<close> is such a run.
\<close>

theorem extractive_summary_deterministic:
  assumes "doc_sents sentences"
  shows "(\<forall>ranked ordered out ranked' ordered' out'.
            summary_run sentences k ranked ordered out \<and> summary_run sentences k ranked' ordered' out'
            \<longrightarrow> out = out')
       \<and> (\<exists>ranked ordered. summary_run sentences k ranked ordered (extractive_summary sentences k))"
proof -
  have "out = out'"
    if "summary_run sentences k ranked ordered out" "summary_run sentences k ranked' ordered' out'"
    for ranked ordered out ranked' ordered' out'
    using run_outcome [OF assms that(1)] run_outcome [OF assms that(2)] by simp
  then show ?thesis
    using run_exists [of sentences k] by blast
qed

theorem extractive_summary_deterministic_witness:
  "doc_sents cat_doc
   \<and> summary_run cat_doc (PyInt 1)
        [(4, dogs_bark), (4, cat_ran), (3, cat_sat)] [(2, 4, dogs_bark)]
        (Inr ''Dogs bark loudly at night.'')
   \<and> extractive_summary cat_doc (PyInt 1) = Inr ''Dogs bark loudly at night.''"
proof -
  have h: "doc_sents cat_doc"
    by (simp add: doc_sents_def example_defs)
  have r: "summary_run cat_doc (PyInt 1)
        [(4, dogs_bark), (4, cat_ran), (3, cat_sat)] [(2, 4, dogs_bark)]
        (Inr ''Dogs bark loudly at night.'')"
    by (simp add: summary_run_def sorted_result_def example_defs pipeline_defs)
  obtain ranked ordered where "summary_run cat_doc (PyInt 1) ranked ordered (extractive_summary cat_doc (PyInt 1))"
    using extractive_summary_deterministic [OF h, of "PyInt 1"] by blast
  then have "extractive_summary cat_doc (PyInt 1) = Inr ''Dogs bark loudly at night.''"
    using r extractive_summary_deterministic [OF h, of "PyInt 1"] by blast
  with h r show ?thesis by blast
qed

section \<open>Verification: preprocessing\<close>






lemma preprocess_df_example:
  "preprocess_df example_df =
     [\<lparr>row_id = ''1'', article = Some ''a b'', highlights = Some ''h''\<rparr>,
      \<lparr>row_id = ''5'', article = Some ''c'', highlights = Some ''h''\<rparr>]"
  by (simp add: preprocess_df_def example_df_def dropna_def str_strip_def strip_def isspace_def
      drop_duplicates_def subset_key_def)

section \<open>Verification: the Overlap Evaluator\<close>

lemma length_ngrams: "length (ngrams n tokens) = Suc (length tokens) - n"
  by (simp add: ngrams_def)

lemma overlap_count_sum:
  "overlap_count rs cs =
     (\<Sum>g\<in>set rs \<union> set cs. min (count (mset rs) g) (count (mset cs) g))"
proof -
  have "overlap_count rs cs =
          (\<Sum>g\<in>set (remdups (rs @ cs)). min (count_list rs g) (count_list cs g))"
    unfolding overlap_count_def by (rule sum_list_distinct_conv_sum_set) simp
  then show ?thesis
    by (simp add: count_mset)
qed

lemma overlap_count_inter:
  "overlap_count rs cs = size (mset rs \<inter># mset cs)"
proof -
  have "size (mset rs \<inter># mset cs) =
          (\<Sum>g\<in>set_mset (mset rs \<inter># mset cs). count (mset rs \<inter># mset cs) g)"
    by (rule size_multiset_overloaded_eq)
  also have "\<dots> = (\<Sum>g\<in>set rs \<inter> set cs. min (count (mset rs) g) (count (mset cs) g))"
    by simp
  also have "\<dots> = (\<Sum>g\<in>set rs \<union> set cs. min (count (mset rs) g) (count (mset cs) g))"
    by (rule sum.mono_neutral_left) (auto simp: count_list_0_iff)
  finally show ?thesis
    by (simp only: overlap_count_sum)
qed

lemma overlap_count_self: "overlap_count xs xs = length xs"
  by (simp add: overlap_count_inter)

lemma lcs_length_self: "lcs_length xs xs = length xs"
  by (induction xs) simp_all

lemma overlap_score_of_value:
  "overlap_score_of overlap n_cand n_ref =
     Inr \<lparr>precision = (if n_cand = 0 then 0 else of_nat overlap / of_nat n_cand),
          recall = (if n_ref = 0 then 0 else of_nat overlap / of_nat n_ref),
          fmeasure =
            (if (if n_cand = 0 then 0 else of_nat overlap / of_nat n_cand)
                + (if n_ref = 0 then 0 else of_nat overlap / of_nat n_ref) = (0 :: rat)
             then 0
             else 2 * (if n_cand = 0 then 0 else of_nat overlap / of_nat n_cand)
                    * (if n_ref = 0 then 0 else of_nat overlap / of_nat n_ref)
                  / ((if n_cand = 0 then 0 else of_nat overlap / of_nat n_cand)
                     + (if n_ref = 0 then 0 else of_nat overlap / of_nat n_ref)))\<rparr>"
  by (simp add: overlap_score_of_def ratio_def f_measure_def checked_div_def)

lemma overlap_score_of_same:
  "0 < n \<Longrightarrow> overlap_score_of n n n = Inr \<lparr>precision = 1, recall = 1, fmeasure = 1\<rparr>"
  by (simp add: overlap_score_of_def ratio_def f_measure_def checked_div_def)

lemma overlap_score_of_zero:
  "overlap_score_of 0 0 0 = Inr \<lparr>precision = 0, recall = 0, fmeasure = 0\<rparr>"
  by (simp add: overlap_score_of_def ratio_def f_measure_def checked_div_def)


text \<open>
  C2. For the n-gram variants (unigram: \<open>n = 1\<close>, bigram: \<open>n = 2\<close>) and every
  reference and candidate token sequence: the overlap count is the sum, over the distinct
  n-grams of the two sequences, of the smaller of the n-gram's two counts; precision is
  the overlap count divided by the number of candidate n-grams, and 0 when there are
  none; recall is the same with the reference n-grams; F is \<open>2PR/(P+R)\<close>, and 0 when
  \<open>P + R = 0\<close>. The evaluation always returns these scores and never fails with a
  division by zero.
\<close>

theorem ngram_overlap_scores:
  "(let rs = ngrams n reference;
        cs = ngrams n candidate;
        overlap = overlap_count rs cs;
        p = (if cs = [] then 0 else of_nat overlap / of_nat (length cs));
        r = (if rs = [] then 0 else of_nat overlap / of_nat (length rs))
    in overlap = (\<Sum>g\<in>set rs \<union> set cs. min (count (mset rs) g) (count (mset cs) g))
       \<and> ngram_score n reference candidate =
            Inr \<lparr>precision = p, recall = r,
                 fmeasure = (if p + r = 0 then 0 else 2 * p * r / (p + r))\<rparr>)
   \<and> score_variant Unigram reference candidate = ngram_score 1 reference candidate
   \<and> score_variant Bigram reference candidate = ngram_score 2 reference candidate"
  unfolding Let_def
proof (intro conjI)
  show "overlap_count (ngrams n reference) (ngrams n candidate) =
          (\<Sum>g\<in>set (ngrams n reference) \<union> set (ngrams n candidate).
             min (count (mset (ngrams n reference)) g) (count (mset (ngrams n candidate)) g))"
    by (rule overlap_count_sum)
  show "score_variant Unigram reference candidate = ngram_score 1 reference candidate"
    by simp
  show "score_variant Bigram reference candidate = ngram_score 2 reference candidate"
    by simp
qed (simp only: ngram_score_def overlap_score_of_value length_0_conv)

text \<open>
  C7 (as amended). With the same token sequence \<open>x\<close> as reference and candidate,
  precision, recall and F-measure are all 1 for the unigram and the LCS variant when
  \<open>x\<close> is not empty, and for the bigram variant when \<open>x\<close> has at least two tokens.
  When \<open>x\<close> has no n-gram of the variant (the empty sequence; for bigrams also a
  single token) all three are 0.
\<close>

theorem identical_inputs_score:
  "(x \<noteq> [] \<longrightarrow>
      score_variant Unigram x x = Inr \<lparr>precision = 1, recall = 1, fmeasure = 1\<rparr>
      \<and> score_variant Lcs x x = Inr \<lparr>precision = 1, recall = 1, fmeasure = 1\<rparr>)
   \<and> (2 \<le> length x \<longrightarrow>
      score_variant Bigram x x = Inr \<lparr>precision = 1, recall = 1, fmeasure = 1\<rparr>)
   \<and> (length x < 2 \<longrightarrow>
      score_variant Bigram x x = Inr \<lparr>precision = 0, recall = 0, fmeasure = 0\<rparr>)
   \<and> (x = [] \<longrightarrow>
      score_variant Unigram x x = Inr \<lparr>precision = 0, recall = 0, fmeasure = 0\<rparr>
      \<and> score_variant Lcs x x = Inr \<lparr>precision = 0, recall = 0, fmeasure = 0\<rparr>)"
proof -
  have u: "score_variant Unigram x x = overlap_score_of (length x) (length x) (length x)"
    by (simp add: ngram_score_def overlap_count_self length_ngrams)
  have l: "score_variant Lcs x x = overlap_score_of (length x) (length x) (length x)"
    by (simp add: lcs_score_def lcs_length_self)
  have b: "score_variant Bigram x x = overlap_score_of (length x - 1) (length x - 1) (length x - 1)"
    by (simp add: ngram_score_def overlap_count_self length_ngrams)
  have 1: "score_variant Unigram x x = Inr \<lparr>precision = 1, recall = 1, fmeasure = 1\<rparr>
           \<and> score_variant Lcs x x = Inr \<lparr>precision = 1, recall = 1, fmeasure = 1\<rparr>" if "x \<noteq> []"
    using that by (simp only: u l) (simp add: overlap_score_of_same)
  have 2: "score_variant Bigram x x = Inr \<lparr>precision = 1, recall = 1, fmeasure = 1\<rparr>" if "2 \<le> length x"
    using that by (simp only: b) (simp add: overlap_score_of_same)
  have 3: "score_variant Bigram x x = Inr \<lparr>precision = 0, recall = 0, fmeasure = 0\<rparr>" if "length x < 2"
  proof -
    have "length x - 1 = 0" using that by simp
    then show ?thesis by (simp only: b overlap_score_of_zero)
  qed
  have 4: "score_variant Unigram x x = Inr \<lparr>precision = 0, recall = 0, fmeasure = 0\<rparr>
           \<and> score_variant Lcs x x = Inr \<lparr>precision = 0, recall = 0, fmeasure = 0\<rparr>" if "x = []"
  proof -
    have "length x = 0" using that by simp
    then show ?thesis by (simp only: u l overlap_score_of_zero simp_thms)
  qed
  from 1 2 3 4 show ?thesis by blast
qed

lemmas evaluator_defs =
  ngram_score_def lcs_score_def ngrams_def overlap_count_def overlap_score_of_def
  ratio_def f_measure_def checked_div_def

theorem identical_inputs_score_witness:
  "[''a'', ''b''] \<noteq> [] \<and> 2 \<le> length [''a'', ''b'']
   \<and> score_variant Unigram [''a'', ''b''] [''a'', ''b''] = Inr \<lparr>precision = 1, recall = 1, fmeasure = 1\<rparr>
   \<and> score_variant Lcs [''a'', ''b''] [''a'', ''b''] = Inr \<lparr>precision = 1, recall = 1, fmeasure = 1\<rparr>
   \<and> score_variant Bigram [''a'', ''b''] [''a'', ''b''] = Inr \<lparr>precision = 1, recall = 1, fmeasure = 1\<rparr>
   \<and> length [''a''] < 2
   \<and> score_variant Bigram [''a''] [''a''] = Inr \<lparr>precision = 0, recall = 0, fmeasure = 0\<rparr>
   \<and> score_variant Lcs ([] :: string list) [] = Inr \<lparr>precision = 0, recall = 0, fmeasure = 0\<rparr>"
  using identical_inputs_score [of "[''a'', ''b'']"] identical_inputs_score [of "[''a'']"]
    identical_inputs_score [of "[] :: string list"]
  by simp

text \<open>
  C7, counterexample. The empty sequence against itself scores 0, not 1, in the unigram and
  LCS variants, and so does a one-token sequence in the bigram variant.
\<close>

theorem identical_inputs_counterexample:
  "score_variant Unigram ([] :: string list) [] = Inr \<lparr>precision = 0, recall = 0, fmeasure = 0\<rparr>
   \<and> score_variant Lcs ([] :: string list) [] = Inr \<lparr>precision = 0, recall = 0, fmeasure = 0\<rparr>
   \<and> score_variant Bigram [''a''] [''a''] = Inr \<lparr>precision = 0, recall = 0, fmeasure = 0\<rparr>"
  by (simp add: evaluator_defs)

text \<open>The specification's example: reference ``a b c d'', candidate ``a b e f''.\<close>

lemma ngram_overlap_scores_example:
  "score_variant Unigram [''a'', ''b'', ''c'', ''d''] [''a'', ''b'', ''e'', ''f'']
     = Inr \<lparr>precision = 1 / 2, recall = 1 / 2, fmeasure = 1 / 2\<rparr>
   \<and> overlap_count (ngrams 1 [''a'', ''b'', ''c'', ''d'']) (ngrams 1 [''a'', ''b'', ''e'', ''f'']) = 2"
  by (simp add: evaluator_defs upt_rec)


end
